theory Spec2Isabelle
  imports Main "HOL-Library.Multiset"
begin

section \<open>Data model (the interfaces of App.tsx)\<close>

text \<open>
  A comment record as the \<^verbatim>\<open>Comment\<close> interface declares it. JavaScript numbers that
  hold counters are integers; the optional \<^verbatim>\<open>parentId\<close> (null or undefined for a
  top-level comment) is an option. The joined \<^verbatim>\<open>author\<close> is display data that no
  function below reads, and the transient \<^verbatim>\<open>replies\<close> array lives in the node
  objects of the tree builder (\<open>cnode\<close> below).
\<close>

record comment =
  c_id :: string
  c_content :: string
  c_authorId :: string
  c_postId :: string
  c_parentId :: "string option"
  c_upvotes :: int
  c_downvotes :: int
  c_depth :: int
  c_isDeleted :: bool
  c_createdAt :: string

text \<open>A vote record, with the two string unions it uses as enumerations.\<close>

datatype targetType = Post | Comment

datatype voteType = Upvote | Downvote

record vote =
  v_id :: string
  v_userId :: string
  v_targetId :: string
  v_targetType :: targetType
  v_voteType :: voteType

text \<open>
  A post record: the identifying fields and the three stored counters. The other fields
  of the interface (content, media links, post type, pin and lock flags, the joined
  author and community) are read by no function below and every update leaves them as
  they are.
\<close>

record post =
  p_id :: string
  p_title :: string
  p_authorId :: string
  p_communityId :: string
  p_upvotes :: int
  p_downvotes :: int
  p_commentCount :: int
  p_createdAt :: string

section \<open>The comment tree builder (PostDetail.tsx, buildCommentTree)\<close>

text \<open>
  \<^verbatim>\<open>if (comment.parentId)\<close> tests JavaScript truthiness: null, undefined and the empty
  string are all falsy. \<open>truthy\<close> gives the parent reference the test lets through.
\<close>

definition truthy :: "string option \<Rightarrow> string option" where
  "truthy v = (case v of None \<Rightarrow> None | Some p \<Rightarrow> if p = [] then None else Some p)"

text \<open>
  The builder creates one object \<^verbatim>\<open>{ ...comment, replies: [] }\<close> per map entry and
  afterwards only mutates the \<^verbatim>\<open>replies\<close> arrays of objects held in the map. Every
  object that is ever referenced (from the root array or from a replies array) is fetched
  with \<^verbatim>\<open>commentMap.get\<close> after the first pass has finished, so an object's identity
  is its key in the map: a reference is modelled as that key, and the map is the store
  the references point into.
\<close>

record cnode =
  node_comment :: comment
  replies :: "string list"

type_synonym commentMap = "string \<rightharpoonup> cnode"

text \<open>First pass: \<^verbatim>\<open>commentMap.set(comment.id, { ...comment, replies: [] })\<close>.\<close>

definition first_pass :: "comment list \<Rightarrow> commentMap" where
  "first_pass comments =
     fold (\<lambda>c m. m(c_id c \<mapsto> \<lparr>node_comment = c, replies = []\<rparr>)) comments Map.empty"

text \<open>
  One iteration of the second pass. A truthy parent id that the map resolves pushes the
  comment's object onto the parent's replies; a truthy parent id that the map does not
  resolve does nothing (the inner \<^verbatim>\<open>if (parent)\<close> has no else branch); a falsy parent id
  pushes the object onto \<^verbatim>\<open>rootComments\<close>.
\<close>

definition second_pass_step ::
    "comment \<Rightarrow> commentMap \<times> string list \<Rightarrow> commentMap \<times> string list" where
  "second_pass_step c st =
     (case st of (m, rootComments) \<Rightarrow>
        (case truthy (c_parentId c) of
           Some p \<Rightarrow>
             (case m p of
                Some parent \<Rightarrow>
                  (m(p \<mapsto> parent\<lparr>replies := replies parent @ [c_id c]\<rparr>), rootComments)
              | None \<Rightarrow> (m, rootComments))
         | None \<Rightarrow> (m, rootComments @ [c_id c])))"

text \<open>
  The result is the root array (a list of references) together with the objects they
  point to.
\<close>

definition buildCommentTree :: "comment list \<Rightarrow> commentMap \<times> string list" where
  "buildCommentTree comments = fold second_pass_step comments (first_pass comments, [])"

definition rootComments_of :: "comment list \<Rightarrow> string list" where
  "rootComments_of comments = snd (buildCommentTree comments)"

definition replies_of :: "comment list \<Rightarrow> string \<Rightarrow> string list" where
  "replies_of comments k =
     (case fst (buildCommentTree comments) k of None \<Rightarrow> [] | Some n \<Rightarrow> replies n)"

text \<open>
  Reading the returned object graph as a finite tree, the way \<^verbatim>\<open>renderComment\<close> walks
  it (a node, then its replies in order). The graph can be cyclic (the same id twice in
  the input can make an object its own reply), so the walk takes fuel and yields
  \<open>None\<close> when it runs out.
\<close>

datatype ctree = CNode comment "ctree list"

fun walk :: "nat \<Rightarrow> commentMap \<Rightarrow> string \<Rightarrow> ctree option" where
  "walk 0 m r = None"
| "walk (Suc k) m r =
     (case m r of
        None \<Rightarrow> None
      | Some n \<Rightarrow> map_option (CNode (node_comment n)) (those (map (walk k m) (replies n))))"

definition comment_forest :: "nat \<Rightarrow> commentMap \<times> string list \<Rightarrow> ctree list option" where
  "comment_forest k res = those (map (walk k (fst res)) (snd res))"

fun tree_comments :: "ctree \<Rightarrow> comment list" where
  "tree_comments (CNode c ts) = c # concat (map tree_comments ts)"

definition forest_comments :: "ctree list \<Rightarrow> comment list" where
  "forest_comments ts = concat (map tree_comments ts)"

text \<open>
  The chronological order of a thread: every truthy parent id names a comment that
  stands earlier in the list (a reply is created after the comment it answers).
\<close>

fun parents_first :: "string list \<Rightarrow> comment list \<Rightarrow> bool" where
  "parents_first seen [] = True"
| "parents_first seen (c # cs) =
     ((case truthy (c_parentId c) of None \<Rightarrow> True | Some p \<Rightarrow> p \<in> set seen)
      \<and> parents_first (seen @ [c_id c]) cs)"

text \<open>
  The chain of parent references of a comment, followed inside the list: the number of
  steps to a comment without truthy parent id, or \<open>None\<close> when a reference names no
  comment of the list or the chain does not end within \<open>k\<close> comments.
\<close>

fun chain :: "nat \<Rightarrow> comment list \<Rightarrow> comment \<Rightarrow> nat option" where
  "chain 0 cs c = None"
| "chain (Suc k) cs c =
     (case truthy (c_parentId c) of
        None \<Rightarrow> Some 0
      | Some p \<Rightarrow>
          (case find (\<lambda>d. c_id d = p) cs of
             None \<Rightarrow> None
           | Some d \<Rightarrow> map_option Suc (chain k cs d)))"

text \<open>Every comment of the list hangs, through its chain, under a top-level comment.\<close>

definition all_rooted :: "comment list \<Rightarrow> bool" where
  "all_rooted cs = list_all (\<lambda>c. chain (length cs) cs c \<noteq> None) cs"

section \<open>The record store behind \<^verbatim>\<open>blink.db\<close>\<close>

text \<open>
  The backend client is an external service; the handlers below only call its
  collection operations. Each collection is the list of its records in creation order.
\<close>

record db =
  db_votes :: "vote list"
  db_posts :: "post list"
  db_comments :: "comment list"

text \<open>
  Modelled from the spec: the backend's \<^verbatim>\<open>list(filter, order, limit)\<close> on the votes
  collection, which is not part of the repository. The handlers always ask for the votes
  of one user on one target of one kind, with \<^verbatim>\<open>limit: 1\<close>.
\<close>

definition votes_list :: "db \<Rightarrow> string \<Rightarrow> string \<Rightarrow> targetType \<Rightarrow> vote list" where
  "votes_list d userId targetId targetType =
     take 1 (filter (\<lambda>v. v_userId v = userId \<and> v_targetId v = targetId
                          \<and> v_targetType v = targetType) (db_votes d))"

text \<open>
  Modelled from the spec: the backend's \<^verbatim>\<open>delete(id)\<close>, which is not part of the
  repository: the records with that identifier leave the collection.
\<close>

definition votes_delete :: "db \<Rightarrow> string \<Rightarrow> db" where
  "votes_delete d i = d\<lparr>db_votes := filter (\<lambda>v. v_id v \<noteq> i) (db_votes d)\<rparr>"

text \<open>
  Modelled from the spec: the backend's \<^verbatim>\<open>update(id, partialRecord)\<close>, which is not
  part of the repository, for the partial record \<^verbatim>\<open>{ voteType }\<close>.
\<close>

definition votes_update :: "db \<Rightarrow> string \<Rightarrow> voteType \<Rightarrow> db" where
  "votes_update d i voteType =
     d\<lparr>db_votes := map (\<lambda>v. if v_id v = i then v\<lparr>v_voteType := voteType\<rparr> else v)
                     (db_votes d)\<rparr>"

text \<open>
  Modelled from the spec: the backend's \<^verbatim>\<open>create(record)\<close>, which is not part of the
  repository: the record joins the collection.
\<close>

definition votes_create :: "db \<Rightarrow> vote \<Rightarrow> db" where
  "votes_create d v = d\<lparr>db_votes := db_votes d @ [v]\<rparr>"

text \<open>
  Modelled from the spec: the backend's \<^verbatim>\<open>create(record)\<close> on the comments
  collection, which is not part of the repository.
\<close>

definition comments_create :: "db \<Rightarrow> comment \<Rightarrow> db" where
  "comments_create d c = d\<lparr>db_comments := db_comments d @ [c]\<rparr>"

text \<open>
  Modelled from the spec: the backend's \<^verbatim>\<open>update(id, partialRecord)\<close> on the posts
  collection, which is not part of the repository. The partial record is given as the
  function that overwrites its fields.
\<close>

definition posts_update :: "db \<Rightarrow> string \<Rightarrow> (post \<Rightarrow> post) \<Rightarrow> db" where
  "posts_update d i partial =
     d\<lparr>db_posts := map (\<lambda>p. if p_id p = i then partial p else p) (db_posts d)\<rparr>"

text \<open>
  Modelled from the spec: the backend's \<^verbatim>\<open>list({ where: { id }, limit: 1 })\<close> on the
  posts collection, which is not part of the repository.
\<close>

definition posts_list_id :: "db \<Rightarrow> string \<Rightarrow> post list" where
  "posts_list_id d i = take 1 (filter (\<lambda>p. p_id p = i) (db_posts d))"

section \<open>The post detail view (PostDetail.tsx)\<close>

text \<open>
  The component state that its handlers read or write: the cached post
  (\<^verbatim>\<open>useState<Post | null>\<close>), the reply text and the comment being replied to. The
  displayed comment tree is rebuilt from the store on every reload and no handler reads
  it, so it is not carried in the state. Backend calls are taken to succeed; the
  \<^verbatim>\<open>catch\<close> branches only log and show a toast.
\<close>

record detail =
  d_db :: db
  d_post :: "post option"
  d_replyText :: string
  d_replyingTo :: "string option"

text \<open>
  \<^verbatim>\<open>loadPostAndComments\<close>: the cached post is replaced by the stored one; when the
  store has no such post the view navigates away and the cache stays as it was.
\<close>

definition loadPostAndComments :: "string \<Rightarrow> detail \<Rightarrow> detail" where
  "loadPostAndComments postId s =
     (case posts_list_id (d_db s) postId of
        [] \<Rightarrow> s
      | postData # _ \<Rightarrow> s\<lparr>d_post := Some postData\<rparr>)"

text \<open>
  \<^verbatim>\<open>handleVote(targetId, targetType, voteType)\<close> of the post detail view, for the
  signed-in user \<open>userId\<close> and the post \<open>postId\<close> of the view. \<open>newId\<close> is the
  identifier the handler generates from the clock and a random number. A vote on the
  post reloads the post and the comments, a vote on a comment reloads the comments only.
\<close>

definition handleVote ::
    "string \<Rightarrow> string \<Rightarrow> string \<Rightarrow> detail \<Rightarrow> string \<Rightarrow> targetType \<Rightarrow> voteType \<Rightarrow> detail" where
  "handleVote userId postId newId s targetId targetType voteType =
     (let d = d_db s;
          d' = (case votes_list d userId targetId targetType of
                  existingVote # _ \<Rightarrow>
                    if v_voteType existingVote = voteType
                    then votes_delete d (v_id existingVote)
                    else votes_update d (v_id existingVote) voteType
                | [] \<Rightarrow>
                    votes_create d \<lparr>v_id = newId, v_userId = userId, v_targetId = targetId,
                                     v_targetType = targetType, v_voteType = voteType\<rparr>);
          s' = s\<lparr>d_db := d'\<rparr>
      in if targetType = Post then loadPostAndComments postId s' else s')"

text \<open>
  The score a comment or post shows: \<^verbatim>\<open>comment.upvotes - comment.downvotes\<close>, read
  from the reloaded record.
\<close>

definition comment_score :: "comment \<Rightarrow> int" where
  "comment_score c = c_upvotes c - c_downvotes c"

definition post_score :: "post \<Rightarrow> int" where
  "post_score p = p_upvotes p - p_downvotes p"

text \<open>The vote records of one user on one target, as the store holds them.\<close>

definition votes_by :: "db \<Rightarrow> string \<Rightarrow> string \<Rightarrow> targetType \<Rightarrow> vote list" where
  "votes_by d userId targetId targetType =
     filter (\<lambda>v. v_userId v = userId \<and> v_targetId v = targetId \<and> v_targetType v = targetType)
       (db_votes d)"

text \<open>
  \<^verbatim>\<open>String.prototype.trim\<close> on a string of single-byte characters: the white space
  code units below U+0080 are TAB, LF, VT, FF, CR and SPACE.
\<close>

definition is_space :: "char \<Rightarrow> bool" where
  "is_space ch = (ch \<in> set [CHR 0x09, CHR 0x0A, CHR 0x0B, CHR 0x0C, CHR 0x0D, CHR 0x20])"

definition trim :: "string \<Rightarrow> string" where
  "trim s = rev (dropWhile is_space (rev (dropWhile is_space s)))"

text \<open>
  \<^verbatim>\<open>handleSubmitReply(parentId, depth)\<close>. \<open>depth\<close> is the nesting level at which
  \<^verbatim>\<open>renderComment\<close> drew the comment being answered. \<open>newId\<close> is the generated
  identifier and \<open>now\<close> the creation time the backend stamps on the record. The
  comment count written to the store is computed from the cached post.
\<close>

definition handleSubmitReply ::
    "string \<Rightarrow> string \<Rightarrow> string \<Rightarrow> string \<Rightarrow> detail \<Rightarrow> string \<Rightarrow> int \<Rightarrow> detail" where
  "handleSubmitReply userId postId newId now s parentId depth =
     (if trim (d_replyText s) = [] then s
      else
        let d1 = comments_create (d_db s)
                   \<lparr>c_id = newId, c_content = trim (d_replyText s), c_authorId = userId,
                    c_postId = postId, c_parentId = Some parentId, c_upvotes = 0,
                    c_downvotes = 0, c_depth = min (depth + 1) 10, c_isDeleted = False,
                    c_createdAt = now\<rparr>;
            d2 = (case d_post s of
                    Some post \<Rightarrow>
                      posts_update d1 postId (\<lambda>p. p\<lparr>p_commentCount := p_commentCount post + 1\<rparr>)
                  | None \<Rightarrow> d1)
        in s\<lparr>d_db := d2, d_replyText := [], d_replyingTo := None\<rparr>)"

text \<open>Typing into the reply box: \<^verbatim>\<open>setReplyText(e.target.value)\<close>.\<close>

definition setReplyText :: "string \<Rightarrow> detail \<Rightarrow> detail" where
  "setReplyText txt s = s\<lparr>d_replyText := txt\<rparr>"

text \<open>The stored comment count of a post, as \<^verbatim>\<open>posts.list\<close> would return it.\<close>

definition stored_commentCount :: "db \<Rightarrow> string \<Rightarrow> int option" where
  "stored_commentCount d postId =
     (case posts_list_id d postId of [] \<Rightarrow> None | p # _ \<Rightarrow> Some (p_commentCount p))"

section \<open>The feed pages (PostFeed, PostCard, SearchResults, TrendingPage)\<close>

text \<open>
  A page that lists posts: the store, the component's \<^verbatim>\<open>posts\<close> state and the lines
  written with \<^verbatim>\<open>console.log\<close>.
\<close>

record page =
  pg_db :: db
  pg_posts :: "post list"
  pg_console :: "string list list"

text \<open>
  \<^verbatim>\<open>post[voteType === 'upvote' ? 'upvotes' : 'downvotes']\<close> as a getter and a setter.
\<close>

definition get_count :: "voteType \<Rightarrow> post \<Rightarrow> int" where
  "get_count voteType p = (case voteType of Upvote \<Rightarrow> p_upvotes p | Downvote \<Rightarrow> p_downvotes p)"

definition set_count :: "voteType \<Rightarrow> int \<Rightarrow> post \<Rightarrow> post" where
  "set_count voteType n p =
     (case voteType of Upvote \<Rightarrow> p\<lparr>p_upvotes := n\<rparr> | Downvote \<Rightarrow> p\<lparr>p_downvotes := n\<rparr>)"

text \<open>
  \<^verbatim>\<open>handleVote(postId, voteType)\<close> of the home feed. After the vote record is
  deleted, updated or created, the counters of the post found in the component's state
  are adjusted, written to the store and put back into the state.
\<close>

definition PostFeed_handleVote ::
    "string \<Rightarrow> string \<Rightarrow> page \<Rightarrow> string \<Rightarrow> voteType \<Rightarrow> page" where
  "PostFeed_handleVote userId newId s postId voteType =
     (let d = pg_db s; ps = pg_posts s in
      case votes_list d userId postId Post of
        existingVote # _ \<Rightarrow>
          if v_voteType existingVote = voteType then
            (let d1 = votes_delete d (v_id existingVote) in
             case find (\<lambda>p. p_id p = postId) ps of
               Some post \<Rightarrow>
                 (let updatedPost = set_count voteType (get_count voteType post - 1) post in
                  s\<lparr>pg_db := posts_update d1 postId
                               (set_count voteType (get_count voteType updatedPost)),
                    pg_posts := map (\<lambda>p. if p_id p = postId then updatedPost else p) ps\<rparr>)
             | None \<Rightarrow> s\<lparr>pg_db := d1\<rparr>)
          else
            (let d1 = votes_update d (v_id existingVote) voteType in
             case find (\<lambda>p. p_id p = postId) ps of
               Some post \<Rightarrow>
                 (let updatedPost = post
                        \<lparr>p_upvotes := (if voteType = Upvote then p_upvotes post + 1
                                       else p_upvotes post - 1),
                         p_downvotes := (if voteType = Downvote then p_downvotes post + 1
                                         else p_downvotes post - 1)\<rparr> in
                  s\<lparr>pg_db := posts_update d1 postId
                               (\<lambda>p. p\<lparr>p_upvotes := p_upvotes updatedPost,
                                       p_downvotes := p_downvotes updatedPost\<rparr>),
                    pg_posts := map (\<lambda>p. if p_id p = postId then updatedPost else p) ps\<rparr>)
             | None \<Rightarrow> s\<lparr>pg_db := d1\<rparr>)
      | [] \<Rightarrow>
          (let d1 = votes_create d \<lparr>v_id = newId, v_userId = userId, v_targetId = postId,
                                    v_targetType = Post, v_voteType = voteType\<rparr> in
           case find (\<lambda>p. p_id p = postId) ps of
             Some post \<Rightarrow>
               (let updatedPost = set_count voteType (get_count voteType post + 1) post in
                s\<lparr>pg_db := posts_update d1 postId
                             (set_count voteType (get_count voteType updatedPost)),
                  pg_posts := map (\<lambda>p. if p_id p = postId then updatedPost else p) ps\<rparr>)
           | None \<Rightarrow> s\<lparr>pg_db := d1\<rparr>))"

text \<open>
  The handlers of the search results page and of the trending page have the same body:
  \<^verbatim>\<open>console.log('Vote:', postId, voteType)\<close> and nothing else.
\<close>

definition voteType_string :: "voteType \<Rightarrow> string" where
  "voteType_string voteType = (case voteType of Upvote \<Rightarrow> ''upvote'' | Downvote \<Rightarrow> ''downvote'')"

definition SearchResults_handleVote :: "page \<Rightarrow> string \<Rightarrow> voteType \<Rightarrow> page" where
  "SearchResults_handleVote s postId voteType =
     s\<lparr>pg_console := pg_console s @ [[''Vote:'', postId, voteType_string voteType]]\<rparr>"

definition TrendingPage_handleVote :: "page \<Rightarrow> string \<Rightarrow> voteType \<Rightarrow> page" where
  "TrendingPage_handleVote s postId voteType =
     s\<lparr>pg_console := pg_console s @ [[''Vote:'', postId, voteType_string voteType]]\<rparr>"

text \<open>
  \<^verbatim>\<open>handleVote(voteType)\<close> of a post card: it calls the page's \<^verbatim>\<open>onVote\<close> with the
  card's post and toggles the card's own highlight \<^verbatim>\<open>userVote\<close>.
\<close>

definition PostCard_handleVote ::
    "(page \<Rightarrow> string \<Rightarrow> voteType \<Rightarrow> page) \<Rightarrow> post \<Rightarrow> page \<times> voteType option \<Rightarrow> voteType
       \<Rightarrow> page \<times> voteType option" where
  "PostCard_handleVote onVote post st voteType =
     (case st of (s, userVote) \<Rightarrow>
        (onVote s (p_id post) voteType,
         if userVote = Some voteType then None else Some voteType))"

text \<open>
  The invariant of the votes collection: no two records share the user, the target
  identifier and the target kind.
\<close>

definition vote_key :: "vote \<Rightarrow> string \<times> string \<times> targetType" where
  "vote_key v = (v_userId v, v_targetId v, v_targetType v)"

definition vote_inv :: "db \<Rightarrow> bool" where
  "vote_inv d = distinct (map vote_key (db_votes d))"

section \<open>Auxiliary notions for the proofs\<close>

text \<open>
  What the second pass has appended to the replies of the node stored under \<open>k\<close>
  once it has run over \<open>cs\<close>.
\<close>

definition add_replies :: "comment list \<Rightarrow> string \<Rightarrow> cnode \<Rightarrow> cnode" where
  "add_replies cs k =
     (\<lambda>n. n\<lparr>replies := replies n @ map c_id (filter (\<lambda>c. truthy (c_parentId c) = Some k) cs)\<rparr>)"

text \<open>Hanging a new leaf \<open>c\<close> as last reply under every node whose comment has id \<open>p\<close>.\<close>

fun graft :: "string \<Rightarrow> comment \<Rightarrow> ctree \<Rightarrow> ctree" where
  "graft p c (CNode x ts) =
     CNode x (map (graft p c) ts @ (if c_id x = p then [CNode c []] else []))"

text \<open>
  The votes collection after one submission by \<open>userId\<close> on the target
  \<open>(targetId, targetType)\<close>: both vote handlers are shown below to leave exactly this.
\<close>

definition votes_after ::
    "vote list \<Rightarrow> string \<Rightarrow> string \<Rightarrow> string \<Rightarrow> targetType \<Rightarrow> voteType \<Rightarrow> vote list" where
  "votes_after vs userId newId targetId targetType voteType =
     (case filter (\<lambda>v. vote_key v = (userId, targetId, targetType)) vs of
        [] \<Rightarrow> vs @ [\<lparr>v_id = newId, v_userId = userId, v_targetId = targetId,
                       v_targetType = targetType, v_voteType = voteType\<rparr>]
      | e # _ \<Rightarrow>
          if v_voteType e = voteType then filter (\<lambda>v. v_id v \<noteq> v_id e) vs
          else map (\<lambda>v. if v_id v = v_id e then v\<lparr>v_voteType := voteType\<rparr> else v) vs)"

text \<open>
  The effect of a submission in the words of the specification, as a relation between the
  votes collection before (\<open>vs\<close>) and after (\<open>vs'\<close>): a record of the pair with the same direction is
  deleted and nothing is added; a record of the pair with the opposite direction is the
  one updated; with no record of the pair, exactly one new record is appended.
\<close>

definition vote_effect ::
    "vote list \<Rightarrow> vote list \<Rightarrow> string \<Rightarrow> string \<Rightarrow> string \<Rightarrow> targetType \<Rightarrow> voteType \<Rightarrow> bool" where
  "vote_effect vs vs' userId newId targetId targetType voteType =
     ((\<forall>v \<in> set vs. vote_key v = (userId, targetId, targetType) \<longrightarrow>
         (if v_voteType v = voteType
          then vs' = filter (\<lambda>x. v_id x \<noteq> v_id v) vs \<and> v \<notin> set vs' \<and> set vs' \<subseteq> set vs
          else vs' = map (\<lambda>x. if v_id x = v_id v then x\<lparr>v_voteType := voteType\<rparr> else x) vs
               \<and> v\<lparr>v_voteType := voteType\<rparr> \<in> set vs' \<and> length vs' = length vs))
      \<and> ((\<forall>v \<in> set vs. vote_key v \<noteq> (userId, targetId, targetType)) \<longrightarrow>
           vs' = vs @ [\<lparr>v_id = newId, v_userId = userId, v_targetId = targetId,
                        v_targetType = targetType, v_voteType = voteType\<rparr>]))"

section \<open>Worked inputs\<close>

text \<open>A comment with the given id and parent id; the other fields do not matter here.\<close>

definition mk_comment :: "string \<Rightarrow> string option \<Rightarrow> comment" where
  "mk_comment i p =
     \<lparr>c_id = i, c_content = ''text'', c_authorId = ''u1'', c_postId = ''p1'', c_parentId = p,
      c_upvotes = 0, c_downvotes = 0, c_depth = 0, c_isDeleted = False,
      c_createdAt = ''2024-01-01''\<rparr>"

text \<open>The thread A, B (reply to A), C (reply to B), D (reply to A), in creation order.\<close>

definition thread_ABCD :: "comment list" where
  "thread_ABCD =
     [mk_comment ''A'' None, mk_comment ''B'' (Some ''A''),
      mk_comment ''C'' (Some ''B''), mk_comment ''D'' (Some ''A'')]"

text \<open>A single comment whose parent is not among the comments of the post.\<close>

definition orphaned :: "comment list" where
  "orphaned = [mk_comment ''B'' (Some ''gone'')]"

text \<open>
  A store with one post, one comment on it that user \<open>u1\<close> has upvoted (the stored
  counters of the comment say so), and the post detail view opened on it, its cached
  post in step with the store.
\<close>

definition vote1 :: vote where
  "vote1 = \<lparr>v_id = ''vote_1'', v_userId = ''u1'', v_targetId = ''c1'',
            v_targetType = Comment, v_voteType = Upvote\<rparr>"

definition post1 :: post where
  "post1 = \<lparr>p_id = ''p1'', p_title = ''a post'', p_authorId = ''u2'', p_communityId = ''t1'',
            p_upvotes = 3, p_downvotes = 1, p_commentCount = 1,
            p_createdAt = ''2024-01-01''\<rparr>"

definition comment1 :: comment where
  "comment1 = (mk_comment ''c1'' None)\<lparr>c_upvotes := 1\<rparr>"

definition store1 :: db where
  "store1 = \<lparr>db_votes = [vote1], db_posts = [post1], db_comments = [comment1]\<rparr>"

definition view1 :: detail where
  "view1 = \<lparr>d_db = store1, d_post = Some post1, d_replyText = ''first reply'',
            d_replyingTo = Some ''c1''\<rparr>"

text \<open>The home feed over a store in which user \<open>u1\<close> has upvoted the post.\<close>

definition vote2 :: vote where
  "vote2 = \<lparr>v_id = ''vote_2'', v_userId = ''u1'', v_targetId = ''p1'',
            v_targetType = Post, v_voteType = Upvote\<rparr>"

definition feed1 :: page where
  "feed1 = \<lparr>pg_db = \<lparr>db_votes = [vote2], db_posts = [post1], db_comments = [comment1]\<rparr>,
            pg_posts = [post1], pg_console = []\<rparr>"

section \<open>The tree builder: what the two passes compute\<close>

lemma those_eq_Some: "those xs = Some ys \<longleftrightarrow> xs = map Some ys"
  by (induction xs arbitrary: ys) (auto split: option.splits)

lemma first_pass_snoc:
  "first_pass (cs @ [c]) = (first_pass cs)(c_id c \<mapsto> \<lparr>node_comment = c, replies = []\<rparr>)"
  by (simp add: first_pass_def)

lemma first_pass_dom: "dom (first_pass cs) = c_id ` set cs"
proof (induction cs rule: rev_induct)
  case Nil
  show ?case by (simp add: first_pass_def)
next
  case (snoc c cs)
  have "dom (first_pass (cs @ [c])) = insert (c_id c) (dom (first_pass cs))"
    unfolding first_pass_snoc by (simp only: dom_fun_upd option.distinct if_False)
  with snoc show ?case by simp
qed

lemma first_pass_key: "first_pass cs k = Some n \<Longrightarrow> c_id (node_comment n) = k \<and> replies n = []"
proof (induction cs arbitrary: n rule: rev_induct)
  case Nil
  then show ?case by (simp add: first_pass_def)
next
  case (snoc c cs)
  then show ?case by (auto simp: first_pass_snoc split: if_splits)
qed

lemma fold_second_pass:
  "fold second_pass_step cs (m, rs) =
     (\<lambda>k. map_option (add_replies cs k) (m k),
      rs @ map c_id (filter (\<lambda>c. truthy (c_parentId c) = None) cs))"
proof (induction cs arbitrary: m rs)
  case Nil
  show ?case by (simp add: add_replies_def option.map_ident)
next
  case (Cons c cs)
  have step: "fold second_pass_step (c # cs) (m, rs) = fold second_pass_step cs (second_pass_step c (m, rs))"
    by simp
  show ?case
  proof (cases "truthy (c_parentId c)")
    case None
    then have "second_pass_step c (m, rs) = (m, rs @ [c_id c])"
      by (simp add: second_pass_step_def)
    then show ?thesis using None
      by (simp add: step Cons.IH add_replies_def)
  next
    case (Some p)
    note tp = this
    show ?thesis
    proof (cases "m p")
      case None
      then have "second_pass_step c (m, rs) = (m, rs)"
        using tp by (simp add: second_pass_step_def)
      then show ?thesis using tp None
        by (auto simp add: step Cons.IH add_replies_def fun_eq_iff)
    next
      case (Some par)
      then have "second_pass_step c (m, rs) = (m(p \<mapsto> par\<lparr>replies := replies par @ [c_id c]\<rparr>), rs)"
        using tp by (simp add: second_pass_step_def)
      then show ?thesis using tp Some
        by (auto simp add: step Cons.IH add_replies_def fun_eq_iff)
    qed
  qed
qed

lemma map_Some_transfer:
  "map f xs = map Some ts \<Longrightarrow> (\<And>x t. x \<in> set xs \<Longrightarrow> f x = Some t \<Longrightarrow> g x = Some (h t))
     \<Longrightarrow> map g xs = map Some (map h ts)"
proof (induction xs arbitrary: ts)
  case Nil
  then show ?case by simp
next
  case (Cons x xs)
  then obtain t ts' where ts: "ts = t # ts'" "f x = Some t" "map f xs = map Some ts'"
    by (cases ts) auto
  have "g x = Some (h t)" using Cons.prems(2)[of x t] ts by simp
  moreover have "map g xs = map Some (map h ts')"
    using Cons.IH[OF ts(3)] Cons.prems(2) by simp
  ultimately show ?case using ts by simp
qed

lemma walk_Suc_Some:
  "walk (Suc k) m r = Some t \<longleftrightarrow>
     (\<exists>n ts. m r = Some n \<and> map (walk k m) (replies n) = map Some ts \<and> t = CNode (node_comment n) ts)"
  by (auto simp: those_eq_Some split: option.splits)

lemma walk_fresh:
  "walk k m r = Some t \<Longrightarrow> m c = None \<Longrightarrow> walk (Suc k) (m(c \<mapsto> x)) r = Some t"
proof (induction k arbitrary: r t)
  case 0
  then show ?case by simp
next
  case (Suc k)
  from Suc.prems(1) obtain n ts where n: "m r = Some n"
      "map (walk k m) (replies n) = map Some ts" "t = CNode (node_comment n) ts"
    unfolding walk_Suc_Some by blast
  have rc: "r \<noteq> c" using n(1) Suc.prems(2) by auto
  have "map (walk (Suc k) (m(c \<mapsto> x))) (replies n) = map Some (map (\<lambda>t. t) ts)"
    using n(2) by (rule map_Some_transfer) (rule Suc.IH[OF _ Suc.prems(2)])
  then show ?case
    unfolding walk_Suc_Some[of "Suc k"] using n rc by simp
qed

lemma walk_graft:
  assumes key: "\<And>r n. m r = Some n \<Longrightarrow> c_id (node_comment n) = r"
    and p: "m p = Some np" and c: "m c = None"
    and m': "m' = m(c \<mapsto> \<lparr>node_comment = cn, replies = []\<rparr>,
                     p \<mapsto> np\<lparr>replies := replies np @ [c]\<rparr>)"
  shows "walk k m r = Some t \<Longrightarrow> walk (Suc k) m' r = Some (graft p cn t)"
proof (induction k arbitrary: r t)
  case 0
  then show ?case by simp
next
  case (Suc k)
  from Suc.prems(1) obtain n ts where n: "m r = Some n"
      "map (walk k m) (replies n) = map Some ts" "t = CNode (node_comment n) ts"
    unfolding walk_Suc_Some by blast
  have rc: "r \<noteq> c" using n(1) c by auto
  have pc: "p \<noteq> c" using p c by auto
  have kids: "map (walk (Suc k) m') (replies n) = map Some (map (graft p cn) ts)"
    using n(2) by (rule map_Some_transfer) (rule Suc.IH)
  have idr: "c_id (node_comment n) = r" using key n(1) by simp
  show ?case
  proof (cases "r = p")
    case True
    then have np: "np = n" using p n(1) by simp
    have leaf: "walk (Suc k) m' c = Some (CNode cn [])"
      using pc by (simp add: m')
    have "m' r = Some (n\<lparr>replies := replies n @ [c]\<rparr>)"
      using True np by (simp add: m')
    then show ?thesis
      unfolding walk_Suc_Some[of "Suc k"] using kids leaf n(3) idr True by simp
  next
    case False
    then have "m' r = Some n" using rc n(1) by (simp add: m')
    then show ?thesis
      unfolding walk_Suc_Some[of "Suc k"] using kids n(3) idr False by simp
  qed
qed

lemma replicate_mset_plus:
  "replicate_mset (a + b) x = replicate_mset a x + replicate_mset b x"
  by (induction a) simp_all

lemma mset_graft:
  "mset (tree_comments (graft p c t)) =
     mset (tree_comments t) + replicate_mset (count (mset (map c_id (tree_comments t))) p) c"
proof (induction t)
  case (CNode x ts)
  have "mset (concat (map tree_comments (map (graft p c) ts))) =
        mset (concat (map tree_comments ts)) +
        replicate_mset (count (mset (map c_id (concat (map tree_comments ts)))) p) c"
    using CNode.IH
  proof (induction ts)
    case Nil
    then show ?case by simp
  next
    case (Cons t ts)
    then show ?case by (simp add: replicate_mset_plus ac_simps)
  qed
  then show ?case by (simp add: ac_simps)
qed

lemma mset_graft_forest:
  "mset (forest_comments (map (graft p c) ts)) =
     mset (forest_comments ts) + replicate_mset (count (mset (map c_id (forest_comments ts))) p) c"
  by (induction ts) (simp_all add: forest_comments_def mset_graft replicate_mset_plus ac_simps)

lemma buildCommentTree_closed:
  "buildCommentTree cs =
     (\<lambda>k. map_option (add_replies cs k) (first_pass cs k),
      map c_id (filter (\<lambda>c. truthy (c_parentId c) = None) cs))"
  by (simp add: buildCommentTree_def fold_second_pass)

lemma parents_first_snoc:
  "parents_first seen (cs @ [c]) \<longleftrightarrow>
     parents_first seen cs \<and>
     (case truthy (c_parentId c) of None \<Rightarrow> True | Some p \<Rightarrow> p \<in> set seen \<union> c_id ` set cs)"
  by (induction cs arbitrary: seen) (auto split: option.splits)

lemma parents_first_within:
  "parents_first seen cs \<Longrightarrow> x \<in> set cs \<Longrightarrow> truthy (c_parentId x) = Some p
     \<Longrightarrow> p \<in> set seen \<union> c_id ` set cs"
proof (induction cs arbitrary: seen)
  case Nil
  then show ?case by simp
next
  case (Cons a cs)
  show ?case
  proof (cases "x = a")
    case True
    then show ?thesis using Cons.prems by simp
  next
    case False
    then have "p \<in> set (seen @ [c_id a]) \<union> c_id ` set cs"
      using Cons.IH[of "seen @ [c_id a]"] Cons.prems by simp
    then show ?thesis by auto
  qed
qed

lemma buildCommentTree_snoc_root:
  assumes "truthy (c_parentId c) = None"
    and "filter (\<lambda>x. truthy (c_parentId x) = Some (c_id c)) cs = []"
  shows "buildCommentTree (cs @ [c]) =
     ((fst (buildCommentTree cs))(c_id c \<mapsto> \<lparr>node_comment = c, replies = []\<rparr>),
      snd (buildCommentTree cs) @ [c_id c])"
  using assms
  by (auto simp: buildCommentTree_closed first_pass_snoc add_replies_def fun_eq_iff)

lemma buildCommentTree_snoc_reply:
  assumes "truthy (c_parentId c) = Some p" and "p \<noteq> c_id c"
    and "fst (buildCommentTree cs) p = Some np"
    and "filter (\<lambda>x. truthy (c_parentId x) = Some (c_id c)) cs = []"
  shows "buildCommentTree (cs @ [c]) =
     ((fst (buildCommentTree cs))(c_id c \<mapsto> \<lparr>node_comment = c, replies = []\<rparr>,
          p \<mapsto> np\<lparr>replies := replies np @ [c_id c]\<rparr>),
      snd (buildCommentTree cs))"
  using assms
  by (auto simp: buildCommentTree_closed first_pass_snoc add_replies_def fun_eq_iff)

lemma forest_invariant:
  "distinct (map c_id cs) \<Longrightarrow> parents_first [] cs \<Longrightarrow>
     \<exists>ts. comment_forest (length cs) (buildCommentTree cs) = Some ts \<and>
       mset (forest_comments ts) = mset cs"
proof (induction cs rule: rev_induct)
  case Nil
  show ?case
    by (simp add: comment_forest_def forest_comments_def buildCommentTree_def first_pass_def)
next
  case (snoc c cs)
  define m where "m = fst (buildCommentTree cs)"
  define rs where "rs = snd (buildCommentTree cs)"
  define leaf where "leaf = \<lparr>node_comment = c, replies = []\<rparr>"
  have d: "distinct (map c_id cs)" and fresh: "c_id c \<notin> c_id ` set cs"
    using snoc.prems(1) by auto
  have pf: "parents_first [] cs"
    and par: "case truthy (c_parentId c) of None \<Rightarrow> True | Some p \<Rightarrow> p \<in> c_id ` set cs"
    using snoc.prems(2) by (auto simp: parents_first_snoc split: option.splits)
  from snoc.IH[OF d pf] obtain ts
    where ts: "map (walk (length cs) m) rs = map Some ts" "mset (forest_comments ts) = mset cs"
    by (auto simp: comment_forest_def those_eq_Some m_def rs_def)
  have dom_m: "dom m = c_id ` set cs"
    by (auto simp: m_def buildCommentTree_closed first_pass_dom[symmetric] dom_def)
  have mc: "m (c_id c) = None" using fresh dom_m by blast
  have key: "c_id (node_comment n) = r" if "m r = Some n" for r n
    using that first_pass_key[of cs r]
    by (auto simp: m_def buildCommentTree_closed add_replies_def)
  have nokid: "filter (\<lambda>x. truthy (c_parentId x) = Some (c_id c)) cs = []"
    using parents_first_within[OF pf] fresh by (auto simp: filter_empty_conv)
  show ?case
  proof (cases "truthy (c_parentId c)")
    case None
    have b: "buildCommentTree (cs @ [c]) = (m(c_id c \<mapsto> leaf), rs @ [c_id c])"
      unfolding m_def rs_def leaf_def by (rule buildCommentTree_snoc_root[OF None nokid])
    have "map (walk (Suc (length cs)) (m(c_id c \<mapsto> leaf))) rs = map Some (map (\<lambda>t. t) ts)"
      using ts(1) by (rule map_Some_transfer) (rule walk_fresh, assumption, rule mc)
    moreover have "walk (Suc (length cs)) (m(c_id c \<mapsto> leaf)) (c_id c) = Some (CNode c [])"
      by (simp add: leaf_def)
    ultimately have "comment_forest (length (cs @ [c])) (buildCommentTree (cs @ [c]))
        = Some (ts @ [CNode c []])"
      by (simp add: b comment_forest_def those_eq_Some)
    moreover have "mset (forest_comments (ts @ [CNode c []])) = mset (cs @ [c])"
      using ts(2) by (simp add: forest_comments_def)
    ultimately show ?thesis by blast
  next
    case (Some p)
    then have p_in: "p \<in> c_id ` set cs" using par by simp
    then have pc: "p \<noteq> c_id c" using fresh by blast
    from p_in dom_m obtain np where np: "m p = Some np" by blast
    define m' where "m' = m(c_id c \<mapsto> leaf, p \<mapsto> np\<lparr>replies := replies np @ [c_id c]\<rparr>)"
    have b: "buildCommentTree (cs @ [c]) = (m', rs)"
      unfolding m'_def m_def rs_def leaf_def
      by (rule buildCommentTree_snoc_reply[OF Some pc np[unfolded m_def] nokid])
    have "map (walk (Suc (length cs)) m') rs = map Some (map (graft p c) ts)"
      using ts(1)
      by (rule map_Some_transfer) (rule walk_graft[OF key np mc m'_def[unfolded leaf_def]])
    then have "comment_forest (length (cs @ [c])) (buildCommentTree (cs @ [c]))
        = Some (map (graft p c) ts)"
      by (simp add: b comment_forest_def those_eq_Some)
    moreover have "mset (forest_comments (map (graft p c) ts)) = mset (cs @ [c])"
    proof -
      have "mset (map c_id (forest_comments ts)) = mset (map c_id cs)"
        using ts(2) by (metis mset_map)
      moreover have "count (mset (map c_id cs)) p = 1"
        using d p_in by (simp add: distinct_count_atmost_1)
      ultimately show ?thesis
        by (simp add: mset_graft_forest ts(2))
    qed
    ultimately show ?thesis by blast
  qed
qed

section \<open>The tree builder: root list and replies lists\<close>

lemma rootComments_of_closed:
  "rootComments_of cs = map c_id (filter (\<lambda>c. truthy (c_parentId c) = None) cs)"
  by (simp add: rootComments_of_def buildCommentTree_closed)

lemma replies_of_closed:
  "replies_of cs k =
     (if k \<in> c_id ` set cs then map c_id (filter (\<lambda>c. truthy (c_parentId c) = Some k) cs) else [])"
proof (cases "first_pass cs k")
  case None
  then have "k \<notin> c_id ` set cs" using first_pass_dom[of cs] by blast
  then show ?thesis using None by (simp add: replies_of_def buildCommentTree_closed)
next
  case (Some n)
  then have "k \<in> c_id ` set cs" using first_pass_dom[of cs] by blast
  moreover have "replies n = []" using first_pass_key[OF Some] by simp
  ultimately show ?thesis using Some
    by (simp add: replies_of_def buildCommentTree_closed add_replies_def)
qed

lemma distinct_ids_eq:
  "distinct (map c_id cs) \<Longrightarrow> x \<in> set cs \<Longrightarrow> y \<in> set cs \<Longrightarrow> c_id x = c_id y \<Longrightarrow> x = y"
  by (meson distinct_map inj_onD)



section \<open>The tree builder: threads in any order\<close>

lemma mset_concat_map:
  "mset (concat (map f xs)) = (\<Sum>x\<in>#mset xs. mset (f x))"
  by (induction xs) simp_all

lemma walk_list_perm:
  assumes ih: "\<And>r t. r \<in> set xs \<Longrightarrow> walk k m r = Some t \<Longrightarrow>
              \<exists>t'. walk k m' r = Some t' \<and> mset (tree_comments t') = mset (tree_comments t)"
    and xs: "map (walk k m) xs = map Some ts"
    and perm: "mset ys = mset xs"
  shows "\<exists>ts'. map (walk k m') ys = map Some ts' \<and>
           mset (concat (map tree_comments ts')) = mset (concat (map tree_comments ts))"
proof -
  define G where "G y = the (walk k m' y)" for y
  have ts: "ts = map (\<lambda>x. the (walk k m x)) xs"
  proof -
    have "map (\<lambda>x. the (walk k m x)) xs = map the (map (walk k m) xs)" by simp
    also have "\<dots> = map the (map Some ts)" by (simp only: xs)
    also have "\<dots> = ts" by (simp add: comp_def)
    finally show ?thesis by simp
  qed
  have some: "walk k m x = Some (the (walk k m x))" if "x \<in> set xs" for x
  proof -
    have "walk k m x \<in> set (map (walk k m) xs)" using that by simp
    then have "walk k m x \<in> set (map Some ts)" by (simp only: xs)
    then show ?thesis by auto
  qed
  have g: "walk k m' x = Some (G x) \<and>
      mset (tree_comments (G x)) = mset (tree_comments (the (walk k m x)))"
    if "x \<in> set xs" for x
    using ih[OF that some[OF that]] by (auto simp: G_def)
  have sets: "set ys = set xs" using perm by (rule mset_eq_setD)
  have "map (walk k m') ys = map Some (map G ys)"
    using g sets by simp
  moreover have "mset (concat (map tree_comments (map G ys))) =
      mset (concat (map tree_comments ts))"
  proof -
    have "mset (concat (map tree_comments (map G ys))) =
        (\<Sum>y\<in>#mset ys. mset (tree_comments (G y)))"
      using mset_concat_map[of "\<lambda>y. tree_comments (G y)" ys] by (simp add: comp_def)
    also have "\<dots> = (\<Sum>x\<in>#mset xs. mset (tree_comments (G x)))"
      by (simp only: perm)
    also have "\<dots> = (\<Sum>x\<in>#mset xs. mset (tree_comments (the (walk k m x))))"
      by (rule arg_cong[where f = sum_mset], rule image_mset_cong) (simp add: g)
    also have "\<dots> = mset (concat (map tree_comments ts))"
      unfolding ts using mset_concat_map[of "\<lambda>x. tree_comments (the (walk k m x))" xs]
      by (simp add: comp_def)
    finally show ?thesis .
  qed
  ultimately show ?thesis by blast
qed

lemma walk_perm:
  assumes rel: "\<And>r n. m r = Some n \<Longrightarrow>
      \<exists>n'. m' r = Some n' \<and> node_comment n' = node_comment n \<and>
            mset (replies n') = mset (replies n)"
  shows "walk k m r = Some t \<Longrightarrow>
     \<exists>t'. walk k m' r = Some t' \<and> mset (tree_comments t') = mset (tree_comments t)"
proof (induction k arbitrary: r t)
  case 0
  then show ?case by simp
next
  case (Suc k)
  from Suc.prems obtain n ts where n: "m r = Some n"
      "map (walk k m) (replies n) = map Some ts" "t = CNode (node_comment n) ts"
    unfolding walk_Suc_Some by blast
  from rel[OF n(1)] obtain n' where n': "m' r = Some n'" "node_comment n' = node_comment n"
      "mset (replies n') = mset (replies n)"
    by blast
  from walk_list_perm[of "replies n" k m m' ts "replies n'", OF Suc.IH n(2) n'(3)]
  obtain ts' where ts': "map (walk k m') (replies n') = map Some ts'"
      "mset (concat (map tree_comments ts')) = mset (concat (map tree_comments ts))"
    by blast
  have "walk (Suc k) m' r = Some (CNode (node_comment n) ts')"
    unfolding walk_Suc_Some using n' ts'(1) by simp
  moreover have "mset (tree_comments (CNode (node_comment n) ts')) = mset (tree_comments t)"
    using ts'(2) n(3) by simp
  ultimately show ?case by blast
qed

lemma first_pass_distinct:
  "distinct (map c_id cs) \<Longrightarrow>
     first_pass cs k = Some n \<longleftrightarrow>
       (\<exists>c \<in> set cs. c_id c = k \<and> n = \<lparr>node_comment = c, replies = []\<rparr>)"
proof (induction cs rule: rev_induct)
  case Nil
  show ?case by (simp add: first_pass_def)
next
  case (snoc c cs)
  then have d: "distinct (map c_id cs)" and fresh: "c_id c \<notin> c_id ` set cs" by auto
  show ?case
  proof (cases "k = c_id c")
    case True
    then have "\<forall>x \<in> set cs. c_id x \<noteq> k" using fresh by (metis imageI)
    then show ?thesis using True by (auto simp: first_pass_snoc)
  next
    case False
    then show ?thesis using snoc.IH[OF d] by (auto simp: first_pass_snoc)
  qed
qed

lemma first_pass_perm:
  assumes "distinct (map c_id cs)" and "mset cs' = mset cs"
  shows "first_pass cs' = first_pass cs"
proof -
  have d': "distinct (map c_id cs')"
    using assms by (metis distinct_map mset_eq_setD mset_eq_imp_distinct_iff)
  have s: "set cs' = set cs" using assms(2) by (rule mset_eq_setD)
  have "first_pass cs' k = first_pass cs k" for k
  proof (cases "first_pass cs k")
    case None
    then have "\<forall>n. first_pass cs' k \<noteq> Some n"
      using first_pass_distinct[OF d', of k] first_pass_distinct[OF assms(1), of k] s by simp
    then show ?thesis using None by (cases "first_pass cs' k") auto
  next
    case (Some n)
    then show ?thesis
      using first_pass_distinct[OF d', of k n] first_pass_distinct[OF assms(1), of k n] s
      by simp
  qed
  then show ?thesis by (rule ext)
qed

lemma buildCommentTree_perm:
  assumes "distinct (map c_id cs)" and "mset cs' = mset cs"
    and "fst (buildCommentTree cs') r = Some n"
  shows "\<exists>n'. fst (buildCommentTree cs) r = Some n' \<and> node_comment n' = node_comment n \<and>
           mset (replies n') = mset (replies n)"
proof -
  from assms(3) obtain n0 where n0: "first_pass cs' r = Some n0" "n = add_replies cs' r n0"
    by (auto simp: buildCommentTree_closed)
  then have "first_pass cs r = Some n0"
    using first_pass_perm[OF assms(1,2)] by simp
  then have 1: "fst (buildCommentTree cs) r = Some (add_replies cs r n0)"
    by (simp add: buildCommentTree_closed)
  have "mset (map c_id (filter (\<lambda>c. truthy (c_parentId c) = Some r) cs)) =
        mset (map c_id (filter (\<lambda>c. truthy (c_parentId c) = Some r) cs'))"
    by (simp add: assms(2))
  then have "mset (replies (add_replies cs r n0)) = mset (replies n)"
    by (simp add: n0(2) add_replies_def)
  moreover have "node_comment (add_replies cs r n0) = node_comment n"
    by (simp add: n0(2) add_replies_def)
  ultimately show ?thesis using 1 by blast
qed

lemma rootComments_perm:
  "mset cs' = mset cs \<Longrightarrow> mset (snd (buildCommentTree cs)) = mset (snd (buildCommentTree cs'))"
  by (simp add: buildCommentTree_closed)

lemma comment_forest_perm:
  assumes "distinct (map c_id cs)" and "mset cs' = mset cs"
    and "comment_forest k (buildCommentTree cs') = Some ts"
  shows "\<exists>ts'. comment_forest k (buildCommentTree cs) = Some ts' \<and>
           mset (forest_comments ts') = mset (forest_comments ts)"
proof -
  let ?m = "fst (buildCommentTree cs')" and ?m' = "fst (buildCommentTree cs)"
  have xs: "map (walk k ?m) (snd (buildCommentTree cs')) = map Some ts"
    using assms(3) by (simp add: comment_forest_def those_eq_Some)
  have ih: "\<exists>t'. walk k ?m' r = Some t' \<and> mset (tree_comments t') = mset (tree_comments t)"
    if "walk k ?m r = Some t" for r t
  proof (rule walk_perm[where m = ?m and m' = ?m' and k = k and r = r and t = t])
    show "\<exists>n'. ?m' r = Some n' \<and> node_comment n' = node_comment n \<and>
            mset (replies n') = mset (replies n)" if "?m r = Some n" for r n
      using that by (rule buildCommentTree_perm[OF assms(1,2)])
    show "walk k ?m r = Some t" by (rule that)
  qed
  from walk_list_perm[OF ih xs rootComments_perm[OF assms(2)]]
  obtain ts' where "map (walk k ?m') (snd (buildCommentTree cs)) = map Some ts'"
      "mset (concat (map tree_comments ts')) = mset (concat (map tree_comments ts))"
    by blast
  then show ?thesis
    by (auto simp: comment_forest_def those_eq_Some forest_comments_def)
qed

lemma chain_mono: "chain k cs c = Some r \<Longrightarrow> chain (Suc k) cs c = Some r"
proof (induction k arbitrary: c r)
  case 0
  then show ?case by simp
next
  case (Suc k)
  show ?case
  proof (cases "truthy (c_parentId c)")
    case None
    then show ?thesis using Suc.prems by simp
  next
    case (Some p)
    with Suc.prems obtain d r' where d: "find (\<lambda>d. c_id d = p) cs = Some d"
        "chain k cs d = Some r'" "r = Suc r'"
      by (auto split: option.splits)
    have "chain (Suc k) cs d = Some r'" using d(2) by (rule Suc.IH)
    then show ?thesis using Some d(1,3) by (simp del: chain.simps(2) add: chain.simps(2)[of "Suc k"])
  qed
qed

lemma parent_rank:
  assumes "all_rooted cs" and "c \<in> set cs" and "truthy (c_parentId c) = Some p"
  shows "\<exists>d \<in> set cs. c_id d = p \<and>
           the (chain (length cs) cs d) < the (chain (length cs) cs c)"
proof -
  obtain k where k: "length cs = Suc k"
    using assms(2) by (cases cs) auto
  from assms(1,2) obtain r where r: "chain (Suc k) cs c = Some r"
    by (auto simp: all_rooted_def list_all_iff k)
  with assms(3) obtain d r' where d: "find (\<lambda>d. c_id d = p) cs = Some d"
      "chain k cs d = Some r'" "r = Suc r'"
    by (auto split: option.splits)
  have "d \<in> set cs" "c_id d = p"
    using d(1) by (auto simp: find_Some_iff)
  moreover have "chain (Suc k) cs d = Some r'" using d(2) by (rule chain_mono)
  ultimately show ?thesis using r d(3) unfolding k by (intro bexI[of _ d]) simp_all
qed

lemma sorted_parents_first:
  assumes "sorted (map rk xs)"
    and "\<And>c p. c \<in> set xs \<Longrightarrow> truthy (c_parentId c) = Some p \<Longrightarrow>
           p \<in> set seen \<or> (\<exists>d \<in> set xs. c_id d = p \<and> rk d < (rk c :: nat))"
  shows "parents_first seen xs"
  using assms
proof (induction xs arbitrary: seen)
  case Nil
  show ?case by simp
next
  case (Cons a xs)
  have le: "rk a \<le> rk d" if "d \<in> set (a # xs)" for d
    using Cons.prems(1) that by auto
  have head: "p \<in> set seen" if "truthy (c_parentId a) = Some p" for p
  proof -
    from Cons.prems(2)[of a p] that
    have "p \<in> set seen \<or> (\<exists>d \<in> set (a # xs). c_id d = p \<and> rk d < rk a)" by simp
    then show ?thesis using le by (meson not_less)
  qed
  have tail: "parents_first (seen @ [c_id a]) xs"
  proof (rule Cons.IH)
    show "sorted (map rk xs)" using Cons.prems(1) by simp
    fix c p assume c: "c \<in> set xs" "truthy (c_parentId c) = Some p"
    from Cons.prems(2)[of c p] c
    have "p \<in> set seen \<or> (\<exists>d \<in> set (a # xs). c_id d = p \<and> rk d < rk c)" by simp
    then show "p \<in> set (seen @ [c_id a]) \<or> (\<exists>d \<in> set xs. c_id d = p \<and> rk d < rk c)"
      by auto
  qed
  show ?case using head tail by (simp split: option.splits)
qed

lemma rooted_forest:
  assumes d: "distinct (map c_id cs)" and r: "all_rooted cs"
  shows "\<exists>ts. comment_forest (length cs) (buildCommentTree cs) = Some ts \<and>
           mset (forest_comments ts) = mset cs"
proof -
  define rk where "rk c = the (chain (length cs) cs c)" for c
  define cs' where "cs' = sort_key rk cs"
  have m: "mset cs' = mset cs" by (simp add: cs'_def)
  have s: "set cs' = set cs" by (simp add: cs'_def)
  have l: "length cs' = length cs" by (simp add: cs'_def)
  have d': "distinct (map c_id cs')"
    using d m by (metis distinct_map mset_eq_setD mset_eq_imp_distinct_iff)
  have "sorted (map rk cs')" by (simp add: cs'_def)
  then have pf: "parents_first [] cs'"
  proof (rule sorted_parents_first)
    fix c p assume "c \<in> set cs'" "truthy (c_parentId c) = Some p"
    then show "p \<in> set [] \<or> (\<exists>d \<in> set cs'. c_id d = p \<and> rk d < rk c)"
      using parent_rank[OF r, of c p] by (simp add: s rk_def)
  qed
  from forest_invariant[OF d' pf] obtain ts'
    where ts': "comment_forest (length cs) (buildCommentTree cs') = Some ts'"
      "mset (forest_comments ts') = mset cs'"
    unfolding l by blast
  from comment_forest_perm[OF d m ts'(1)] obtain ts
    where "comment_forest (length cs) (buildCommentTree cs) = Some ts"
      "mset (forest_comments ts) = mset (forest_comments ts')"
    by blast
  then show ?thesis using ts'(2) m by auto
qed

lemma chain_mono_le: "chain k cs c = Some r \<Longrightarrow> k \<le> k' \<Longrightarrow> chain k' cs c = Some r"
proof (induction k' arbitrary: k)
  case 0
  then show ?case by simp
next
  case (Suc k')
  show ?case
  proof (cases "k = Suc k'")
    case True
    then show ?thesis using Suc.prems(1) by simp
  next
    case False
    then have "k \<le> k'" using Suc.prems(2) by simp
    then have "chain k' cs c = Some r" using Suc.IH Suc.prems(1) by blast
    then show ?thesis by (rule chain_mono)
  qed
qed

lemma parents_first_nth:
  "parents_first seen cs \<Longrightarrow> i < length cs \<Longrightarrow> truthy (c_parentId (cs ! i)) = Some p
     \<Longrightarrow> p \<in> set seen \<union> c_id ` set (take i cs)"
proof (induction cs arbitrary: seen i)
  case Nil
  then show ?case by simp
next
  case (Cons a cs)
  show ?case
  proof (cases i)
    case 0
    then show ?thesis using Cons.prems by simp
  next
    case (Suc j)
    then have "p \<in> set (seen @ [c_id a]) \<union> c_id ` set (take j cs)"
      using Cons.IH[of "seen @ [c_id a]" j] Cons.prems by simp
    then show ?thesis using Suc by auto
  qed
qed

lemma find_distinct_id:
  assumes "distinct (map c_id cs)" and "d \<in> set cs"
  shows "find (\<lambda>x. c_id x = c_id d) cs = Some d"
proof (cases "find (\<lambda>x. c_id x = c_id d) cs")
  case None
  then show ?thesis using assms(2) by (auto simp: find_None_iff)
next
  case (Some e)
  then have "e \<in> set cs" "c_id e = c_id d"
    by (auto simp: find_Some_iff)
  then have "e = d" using distinct_ids_eq[OF assms(1) _ assms(2)] by blast
  then show ?thesis using Some by simp
qed

lemma parents_first_all_rooted:
  assumes d: "distinct (map c_id cs)" and pf: "parents_first [] cs"
  shows "all_rooted cs"
proof -
  have step: "chain (Suc i) cs (cs ! i) \<noteq> None" if "i < length cs" for i
    using that
  proof (induction i rule: less_induct)
    case (less i)
    show ?case
    proof (cases "truthy (c_parentId (cs ! i))")
      case None
      then show ?thesis by simp
    next
      case (Some p)
      from parents_first_nth[OF pf less.prems Some]
      obtain e where e: "e \<in> set (take i cs)" "c_id e = p" by auto
      then obtain j where j: "j < i" "j < length cs" "e = cs ! j"
        using less.prems by (auto simp: in_set_conv_nth)
      have f: "find (\<lambda>x. c_id x = p) cs = Some e"
        using find_distinct_id[OF d, of e] e(2) j by simp
      from less.IH[OF j(1,2)] obtain r where r: "chain (Suc j) cs e = Some r"
        using j(3) by auto
      have "Suc j \<le> i" using j(1) by simp
      with r have "chain i cs e = Some r" by (rule chain_mono_le)
      then show ?thesis using Some f by simp
    qed
  qed
  have "chain (length cs) cs c \<noteq> None" if "c \<in> set cs" for c
  proof -
    from that obtain i where i: "i < length cs" "c = cs ! i"
      by (auto simp: in_set_conv_nth)
    from step[OF i(1)] obtain r where r: "chain (Suc i) cs c = Some r"
      using i(2) by auto
    have "Suc i \<le> length cs" using i(1) by simp
    with r have "chain (length cs) cs c = Some r" by (rule chain_mono_le)
    then show ?thesis by simp
  qed
  then show ?thesis by (simp add: all_rooted_def list_all_iff)
qed


section \<open>The tree builder: claims\<close>

text \<open>
  Claim C1 as stated fails. For the single comment \<open>B\<close> whose parent \<open>gone\<close> is
  not among the comments, the second pass finds a truthy parent id, fails to resolve it
  and pushes nothing: the returned root array is empty and the tree has no node, while
  the input has one comment.
\<close>

theorem C1_counterexample:
  "rootComments_of orphaned = [] \<and> comment_forest 1 (buildCommentTree orphaned) = Some []
     \<and> length orphaned = 1"
  by (simp add: rootComments_of_closed comment_forest_def buildCommentTree_closed orphaned_def
      mk_comment_def truthy_def)

text \<open>
  Claim C1, amended. For every flat list of comments with pairwise distinct ids in which
  the chain of parent references of every comment leads, inside the list, to a comment
  without parent reference (no reference to a missing comment, no cycle), the walk of the
  returned tree ends (fuel \<open>length cs\<close> is enough) and the nodes it meets, roots and
  nested replies together, are exactly the input comments, each once: their number is
  the length of the input. By \<open>parents_first_all_rooted\<close> this covers every thread in
  creation order whose parents are all present.
\<close>

theorem buildCommentTree_keeps_every_comment:
  assumes "distinct (map c_id cs)" and "all_rooted cs"
  shows "\<exists>ts. comment_forest (length cs) (buildCommentTree cs) = Some ts
           \<and> length (forest_comments ts) = length cs
           \<and> mset (forest_comments ts) = mset cs"
proof -
  from rooted_forest[OF assms] obtain ts
    where ts: "comment_forest (length cs) (buildCommentTree cs) = Some ts"
      "mset (forest_comments ts) = mset cs"
    by blast
  from ts(2) have "length (forest_comments ts) = length cs"
    by (rule mset_eq_length)
  with ts show ?thesis by blast
qed

theorem buildCommentTree_keeps_every_comment_witness:
  "distinct (map c_id thread_ABCD) \<and> all_rooted thread_ABCD
     \<and> (\<exists>ts. comment_forest 4 (buildCommentTree thread_ABCD) = Some ts
            \<and> length (forest_comments ts) = 4 \<and> mset (forest_comments ts) = mset thread_ABCD)"
proof -
  have d: "distinct (map c_id thread_ABCD)"
    by (simp add: thread_ABCD_def mk_comment_def)
  have r: "all_rooted thread_ABCD"
    by (simp add: all_rooted_def thread_ABCD_def mk_comment_def truthy_def numeral_nat)
  have l: "length thread_ABCD = 4"
    by (simp add: thread_ABCD_def)
  show ?thesis
    using d r buildCommentTree_keeps_every_comment[OF d r] unfolding l by simp
qed

text \<open>
  Claim C2 as stated fails. The comment \<open>B\<close> has the parent reference \<open>gone\<close>, which
  is the id of no input comment, and \<open>B\<close> is not in the returned root list.
\<close>

theorem C2_counterexample:
  "c_parentId (hd orphaned) = Some ''gone'' \<and> ''gone'' \<notin> c_id ` set orphaned
     \<and> c_id (hd orphaned) \<notin> set (rootComments_of orphaned)"
  by (simp add: rootComments_of_closed orphaned_def mk_comment_def truthy_def)

text \<open>
  Claim C2, amended. In a list with pairwise distinct ids, a comment whose parent
  reference is present but is the id of no input comment is left out of the result when
  the reference is a non-empty string: it is in no replies list and not in the root
  list. It is in the root list exactly when the reference is the empty string, which the
  truthiness test treats like null. No branch of the builder raises.
\<close>

theorem unresolved_parent_left_out:
  assumes "distinct (map c_id cs)" and "c \<in> set cs"
    and "c_parentId c = Some p" and "p \<notin> c_id ` set cs"
  shows "(c_id c \<in> set (rootComments_of cs) \<longleftrightarrow> p = [])
           \<and> (\<forall>k. c_id c \<notin> set (replies_of cs k))"
proof -
  have same: "x = c" if "x \<in> set cs" "c_id x = c_id c" for x
    using distinct_ids_eq[OF assms(1) that(1) assms(2) that(2)] .
  have t: "truthy (c_parentId c) = (if p = [] then None else Some p)"
    using assms(3) by (simp add: truthy_def)
  have "c_id c \<in> set (rootComments_of cs) \<longleftrightarrow> p = []"
  proof
    assume "c_id c \<in> set (rootComments_of cs)"
    then obtain x where x: "x \<in> set cs" "truthy (c_parentId x) = None" "c_id x = c_id c"
      by (auto simp: rootComments_of_closed)
    then show "p = []" using same[OF x(1) x(3)] t by (auto split: if_splits)
  next
    assume "p = []"
    then show "c_id c \<in> set (rootComments_of cs)"
      using assms(2) t by (auto simp: rootComments_of_closed)
  qed
  moreover have "c_id c \<notin> set (replies_of cs k)" for k
  proof
    assume "c_id c \<in> set (replies_of cs k)"
    then obtain x where x: "k \<in> c_id ` set cs" "x \<in> set cs"
        "truthy (c_parentId x) = Some k" "c_id x = c_id c"
      by (auto simp: replies_of_closed split: if_splits)
    then show False using same[OF x(2) x(4)] t assms(4) by (auto split: if_splits)
  qed
  ultimately show ?thesis by blast
qed

theorem unresolved_parent_left_out_witness:
  "distinct (map c_id orphaned) \<and> mk_comment ''B'' (Some ''gone'') \<in> set orphaned
     \<and> c_parentId (mk_comment ''B'' (Some ''gone'')) = Some ''gone''
     \<and> ''gone'' \<notin> c_id ` set orphaned
     \<and> ''B'' \<notin> set (rootComments_of orphaned)
     \<and> ''B'' \<notin> set (replies_of orphaned ''gone'')"
proof -
  have h: "distinct (map c_id orphaned)" "mk_comment ''B'' (Some ''gone'') \<in> set orphaned"
    "c_parentId (mk_comment ''B'' (Some ''gone'')) = Some ''gone''"
    "''gone'' \<notin> c_id ` set orphaned"
    by (simp_all add: orphaned_def mk_comment_def)
  have i: "c_id (mk_comment ''B'' (Some ''gone'')) = ''B''"
    by (simp add: mk_comment_def)
  show ?thesis
    using h unresolved_parent_left_out[OF h] unfolding i by simp
qed




section \<open>Voting: what a submission does to the votes collection\<close>

lemma votes_list_key:
  "votes_list d u t ty = take 1 (filter (\<lambda>v. vote_key v = (u, t, ty)) (db_votes d))"
  by (simp add: votes_list_def vote_key_def)

lemma loadPostAndComments_db: "d_db (loadPostAndComments pid s) = d_db s"
  by (simp add: loadPostAndComments_def split: list.splits)

lemma handleVote_db:
  "d_db (handleVote uid pid newId s tid tty dir) =
     (case votes_list (d_db s) uid tid tty of
        existingVote # _ \<Rightarrow>
          if v_voteType existingVote = dir
          then votes_delete (d_db s) (v_id existingVote)
          else votes_update (d_db s) (v_id existingVote) dir
      | [] \<Rightarrow>
          votes_create (d_db s) \<lparr>v_id = newId, v_userId = uid, v_targetId = tid,
                                 v_targetType = tty, v_voteType = dir\<rparr>)"
  by (simp add: handleVote_def Let_def loadPostAndComments_db)

lemma handleVote_votes:
  "db_votes (d_db (handleVote uid pid newId s tid tty dir)) =
     votes_after (db_votes (d_db s)) uid newId tid tty dir"
proof (cases "filter (\<lambda>v. vote_key v = (uid, tid, tty)) (db_votes (d_db s))")
  case Nil
  then show ?thesis
    by (simp add: handleVote_db votes_list_key votes_after_def votes_create_def)
next
  case (Cons e es)
  then show ?thesis
    by (simp add: handleVote_db votes_list_key votes_after_def votes_delete_def
        votes_update_def)
qed

lemma handleVote_counters:
  "db_comments (d_db (handleVote uid pid newId s tid tty dir)) = db_comments (d_db s)
   \<and> db_posts (d_db (handleVote uid pid newId s tid tty dir)) = db_posts (d_db s)"
  by (simp add: handleVote_db votes_create_def votes_delete_def votes_update_def
      split: list.splits)

lemma posts_update_votes: "db_votes (posts_update d i f) = db_votes d"
  by (simp add: posts_update_def)

lemma PostFeed_handleVote_votes:
  "db_votes (pg_db (PostFeed_handleVote uid newId s pid dir)) =
     votes_after (db_votes (pg_db s)) uid newId pid Post dir"
proof (cases "filter (\<lambda>v. vote_key v = (uid, pid, Post)) (db_votes (pg_db s))")
  case Nil
  then show ?thesis
    by (simp add: PostFeed_handleVote_def Let_def votes_list_key votes_after_def
        votes_create_def posts_update_votes split: option.splits)
next
  case (Cons e es)
  then show ?thesis
    by (simp add: PostFeed_handleVote_def Let_def votes_list_key votes_after_def
        votes_delete_def votes_update_def posts_update_votes split: option.splits)
qed

lemma filter_key_single:
  "distinct (map f xs) \<Longrightarrow> x \<in> set xs \<Longrightarrow> filter (\<lambda>y. f y = f x) xs = [x]"
proof (induction xs)
  case Nil
  then show ?case by simp
next
  case (Cons a xs)
  show ?case
  proof (cases "x = a")
    case True
    have "f a \<notin> f ` set xs" using Cons.prems(1) by simp
    then have "filter (\<lambda>y. f y = f a) xs = []"
      unfolding filter_empty_conv by (metis imageI)
    then show ?thesis using True by simp
  next
    case False
    then have "x \<in> set xs" using Cons.prems(2) by simp
    moreover have "f a \<noteq> f x" using Cons.prems(1) \<open>x \<in> set xs\<close> by auto
    ultimately show ?thesis using Cons by simp
  qed
qed

lemma votes_after_effect:
  assumes "distinct (map vote_key vs)"
  shows "vote_effect vs (votes_after vs uid newId tid tty dir) uid newId tid tty dir"
proof -
  let ?va = "votes_after vs uid newId tid tty dir"
  have single: "filter (\<lambda>y. vote_key y = (uid, tid, tty)) vs = [v]"
    if "v \<in> set vs" "vote_key v = (uid, tid, tty)" for v
    using filter_key_single[OF assms that(1)] that(2) by simp
  have same: "?va = filter (\<lambda>x. v_id x \<noteq> v_id v) vs"
    if "v \<in> set vs" "vote_key v = (uid, tid, tty)" "v_voteType v = dir" for v
    using single[OF that(1,2)] that(3) by (simp add: votes_after_def)
  have other: "?va = map (\<lambda>x. if v_id x = v_id v then x\<lparr>v_voteType := dir\<rparr> else x) vs"
    if "v \<in> set vs" "vote_key v = (uid, tid, tty)" "v_voteType v \<noteq> dir" for v
    using single[OF that(1,2)] that(3) by (simp add: votes_after_def)
  have none: "?va = vs @ [\<lparr>v_id = newId, v_userId = uid, v_targetId = tid,
      v_targetType = tty, v_voteType = dir\<rparr>]"
    if "\<forall>v \<in> set vs. vote_key v \<noteq> (uid, tid, tty)"
  proof -
    have "filter (\<lambda>v. vote_key v = (uid, tid, tty)) vs = []"
      using that by (simp add: filter_empty_conv)
    then show ?thesis by (simp add: votes_after_def)
  qed
  have first: "if v_voteType v = dir
          then ?va = filter (\<lambda>x. v_id x \<noteq> v_id v) vs \<and> v \<notin> set ?va \<and> set ?va \<subseteq> set vs
          else ?va = map (\<lambda>x. if v_id x = v_id v then x\<lparr>v_voteType := dir\<rparr> else x) vs
               \<and> v\<lparr>v_voteType := dir\<rparr> \<in> set ?va \<and> length ?va = length vs"
    if v: "v \<in> set vs" "vote_key v = (uid, tid, tty)" for v
  proof (cases "v_voteType v = dir")
    case True
    have "?va = filter (\<lambda>x. v_id x \<noteq> v_id v) vs" by (rule same[OF v True])
    moreover have "v \<notin> set ?va" unfolding same[OF v True] by simp
    moreover have "set ?va \<subseteq> set vs" unfolding same[OF v True] by simp
    ultimately show ?thesis using True by presburger
  next
    case False
    have "?va = map (\<lambda>x. if v_id x = v_id v then x\<lparr>v_voteType := dir\<rparr> else x) vs"
      by (rule other[OF v False])
    moreover have "v\<lparr>v_voteType := dir\<rparr> \<in> set ?va"
      unfolding other[OF v False] set_map using v(1) by (rule rev_image_eqI) simp
    moreover have "length ?va = length vs" unfolding other[OF v False] by simp
    ultimately show ?thesis using False by presburger
  qed
  show ?thesis
    unfolding vote_effect_def using first none by blast
qed

lemma votes_after_inv:
  assumes "distinct (map vote_key vs)"
  shows "distinct (map vote_key (votes_after vs uid newId tid tty dir))"
proof (cases "filter (\<lambda>v. vote_key v = (uid, tid, tty)) vs")
  case Nil
  then have "(uid, tid, tty) \<notin> vote_key ` set vs"
    by (auto simp: filter_empty_conv)
  then show ?thesis using assms Nil
    by (simp add: votes_after_def vote_key_def)
next
  case (Cons e es)
  have keep: "vote_key \<circ> (\<lambda>v. if v_id v = v_id e then v\<lparr>v_voteType := dir\<rparr> else v)
      = vote_key"
    by (auto simp: fun_eq_iff vote_key_def)
  show ?thesis using assms Cons
    by (simp add: votes_after_def keep distinct_map_filter)
qed

lemma votes_after_changes: "votes_after vs uid newId tid tty dir \<noteq> vs"
proof (cases "filter (\<lambda>v. vote_key v = (uid, tid, tty)) vs")
  case Nil
  then show ?thesis by (simp add: votes_after_def)
next
  case (Cons e es)
  then have "e \<in> set (filter (\<lambda>v. vote_key v = (uid, tid, tty)) vs)"
    by simp
  then have e: "e \<in> set vs"
    by simp
  show ?thesis
  proof (cases "v_voteType e = dir")
    case True
    have "e \<notin> set (filter (\<lambda>v. v_id v \<noteq> v_id e) vs)" by simp
    then have "filter (\<lambda>v. v_id v \<noteq> v_id e) vs \<noteq> vs" using e by metis
    then show ?thesis using Cons True by (simp add: votes_after_def)
  next
    case False
    let ?f = "\<lambda>v. if v_id v = v_id e then v\<lparr>v_voteType := dir\<rparr> else v"
    have "v_voteType (?f e) = dir" by simp
    then have "?f e \<noteq> e" using False by metis
    moreover have "map ?f vs = vs \<Longrightarrow> ?f e = e"
    proof -
      assume "map ?f vs = vs"
      then have "map ?f vs = map (\<lambda>v. v) vs" by simp
      then have "\<forall>x \<in> set vs. ?f x = x" unfolding map_eq_conv .
      then show "?f e = e" using e by blast
    qed
    ultimately have "map ?f vs \<noteq> vs" by blast
    then show ?thesis using Cons False by (simp add: votes_after_def)
  qed
qed


section \<open>Voting and replying: claims\<close>

lemma votes_by_key:
  "votes_by d u t ty = filter (\<lambda>v. vote_key v = (u, t, ty)) (db_votes d)"
  by (simp add: votes_by_def vote_key_def)

text \<open>
  Claim C4. While the votes collection holds at most one record per user and target, a
  submission through the post detail view (on a post or a comment) or through the home
  feed (on a post) does the following to the collection: a record of that user and
  target with the submitted direction is deleted and nothing is created; a record of
  that user and target with the other direction is the record that is updated to the
  submitted direction; and when there is no record of that user and target, exactly one
  new record with the submitted direction is appended.
\<close>

theorem vote_submission_effect:
  assumes "vote_inv (d_db s)" and "vote_inv (pg_db f)"
  shows "vote_effect (db_votes (d_db s))
           (db_votes (d_db (handleVote userId postId newId s targetId targetType voteType)))
           userId newId targetId targetType voteType
       \<and> vote_effect (db_votes (pg_db f))
           (db_votes (pg_db (PostFeed_handleVote userId newId f targetId voteType)))
           userId newId targetId Post voteType"
  using assms
  by (simp add: handleVote_votes PostFeed_handleVote_votes votes_after_effect vote_inv_def)

theorem vote_submission_effect_witness:
  "vote_inv (d_db view1) \<and> vote_inv (pg_db feed1)
     \<and> db_votes (d_db (handleVote ''u1'' ''p1'' ''vote_9'' view1 ''c1'' Comment Downvote))
         = [vote1\<lparr>v_voteType := Downvote\<rparr>]
     \<and> db_votes (pg_db (PostFeed_handleVote ''u1'' ''vote_9'' feed1 ''p1'' Upvote)) = []"
proof -
  have i: "vote_inv (d_db view1)" "vote_inv (pg_db feed1)"
    by (simp_all add: vote_inv_def view1_def store1_def feed1_def)
  have v: "db_votes (d_db view1) = [vote1]" "db_votes (pg_db feed1) = [vote2]"
    by (simp_all add: view1_def store1_def feed1_def)
  have k: "vote_key vote1 = (''u1'', ''c1'', Comment)" "v_voteType vote1 \<noteq> Downvote"
    "vote_key vote2 = (''u1'', ''p1'', Post)" "v_voteType vote2 = Upvote"
    by (simp_all add: vote_key_def vote1_def vote2_def)
  from vote_submission_effect[OF i, of "''u1''" "''p1''" "''vote_9''" "''c1''" Comment Downvote]
  have "db_votes (d_db (handleVote ''u1'' ''p1'' ''vote_9'' view1 ''c1'' Comment Downvote))
         = [vote1\<lparr>v_voteType := Downvote\<rparr>]"
    unfolding vote_effect_def v using k by simp
  moreover
  from vote_submission_effect[OF i, of "''u1''" "''p1''" "''vote_9''" "''p1''" Comment Upvote]
  have "db_votes (pg_db (PostFeed_handleVote ''u1'' ''vote_9'' feed1 ''p1'' Upvote)) = []"
    unfolding vote_effect_def v using k by simp
  ultimately show ?thesis using i by simp
qed

text \<open>
  The home feed does move the score on a change of direction: with one upvote record of
  \<open>u1\<close> on the post, a downvote takes the shown and the stored score from 2 to 0.
\<close>

lemma PostFeed_direction_change_moves_score:
  "map post_score (pg_posts feed1) = [2]
   \<and> map post_score (pg_posts (PostFeed_handleVote ''u1'' ''vote_9'' feed1 ''p1'' Downvote)) = [0]
   \<and> map post_score (db_posts (pg_db (PostFeed_handleVote ''u1'' ''vote_9'' feed1 ''p1'' Downvote)))
       = [0]"
  by (simp add: PostFeed_handleVote_def Let_def votes_list_def votes_update_def posts_update_def
      feed1_def vote2_def post1_def post_score_def)

text \<open>
  Claim C5, evaluated on the post detail view. The comment \<open>c1\<close> carries one upvote
  record of user \<open>u1\<close> and shows the score 1. After \<open>u1\<close> submits a downvote there is
  exactly one vote record of the pair and its direction is downvote, but the handler
  writes no counter: the stored upvotes and downvotes of the comment are what they were
  and the score is still 1, not 1 - 2.
\<close>

theorem downvote_after_upvote_keeps_score:
  "votes_by (d_db view1) ''u1'' ''c1'' Comment = [vote1] \<and> v_voteType vote1 = Upvote
     \<and> votes_by (d_db (handleVote ''u1'' ''p1'' ''vote_9'' view1 ''c1'' Comment Downvote))
          ''u1'' ''c1'' Comment = [vote1\<lparr>v_voteType := Downvote\<rparr>]
     \<and> map comment_score (db_comments (d_db view1)) = [1]
     \<and> map comment_score
          (db_comments (d_db (handleVote ''u1'' ''p1'' ''vote_9'' view1 ''c1'' Comment Downvote)))
          = [1]"
  by (simp add: votes_by_key handleVote_votes handleVote_counters votes_after_def view1_def
      store1_def vote1_def vote_key_def comment1_def mk_comment_def comment_score_def)

text \<open>
  Claim C6. For a comment on which the user has no vote record, two upvote submissions
  in a row through the post detail view leave no vote record of that user on that
  comment, and the score of every stored comment is what it was before the first
  submission. When the identifier generated for the first vote is not already the id of
  a stored vote, the whole state after the two submissions is the state before them.
\<close>

theorem double_upvote_restores:
  assumes "votes_by (d_db s) userId commentId Comment = []"
  shows "votes_by (d_db (handleVote userId postId n2
                    (handleVote userId postId n1 s commentId Comment Upvote)
                    commentId Comment Upvote)) userId commentId Comment = []
       \<and> map comment_score (db_comments (d_db (handleVote userId postId n2
                    (handleVote userId postId n1 s commentId Comment Upvote)
                    commentId Comment Upvote)))
           = map comment_score (db_comments (d_db s))
       \<and> (n1 \<notin> v_id ` set (db_votes (d_db s)) \<longrightarrow>
            handleVote userId postId n2
              (handleVote userId postId n1 s commentId Comment Upvote)
              commentId Comment Upvote = s)"
proof -
  let ?new = "\<lparr>v_id = n1, v_userId = userId, v_targetId = commentId,
                v_targetType = Comment, v_voteType = Upvote\<rparr>"
  let ?s1 = "handleVote userId postId n1 s commentId Comment Upvote"
  let ?s2 = "handleVote userId postId n2 ?s1 commentId Comment Upvote"
  let ?vs = "db_votes (d_db s)"
  have none: "filter (\<lambda>v. vote_key v = (userId, commentId, Comment)) ?vs = []"
    using assms by (simp add: votes_by_key)
  have s1: "?s1 = s\<lparr>d_db := (d_db s)\<lparr>db_votes := ?vs @ [?new]\<rparr>\<rparr>"
    using none by (simp add: handleVote_def Let_def votes_list_key votes_create_def)
  have l1: "votes_list (d_db ?s1) userId commentId Comment = [?new]"
    unfolding s1 using none by (simp add: votes_list_key vote_key_def)
  have s2: "?s2 = s\<lparr>d_db := (d_db s)\<lparr>db_votes := filter (\<lambda>v. v_id v \<noteq> n1) ?vs\<rparr>\<rparr>"
    unfolding handleVote_def[of userId postId n2 ?s1] Let_def l1
    by (simp add: s1 votes_delete_def)
  have a: "votes_by (d_db ?s2) userId commentId Comment = []"
    unfolding s2 using none by (simp add: votes_by_key filter_empty_conv)
  have b: "db_comments (d_db ?s2) = db_comments (d_db s)"
    unfolding s2 by simp
  have c: "?s2 = s" if "n1 \<notin> v_id ` set ?vs"
  proof -
    have "filter (\<lambda>v. v_id v \<noteq> n1) ?vs = ?vs"
      using that by (auto simp: filter_id_conv)
    then show ?thesis unfolding s2 by simp
  qed
  show ?thesis using a b c by simp
qed

theorem double_upvote_restores_witness:
  "votes_by (d_db view1) ''u2'' ''c1'' Comment = []
   \<and> ''vote_7'' \<notin> v_id ` set (db_votes (d_db view1))
   \<and> votes_by (d_db (handleVote ''u2'' ''p1'' ''vote_8''
                    (handleVote ''u2'' ''p1'' ''vote_7'' view1 ''c1'' Comment Upvote)
                    ''c1'' Comment Upvote)) ''u2'' ''c1'' Comment = []
   \<and> handleVote ''u2'' ''p1'' ''vote_8''
        (handleVote ''u2'' ''p1'' ''vote_7'' view1 ''c1'' Comment Upvote)
        ''c1'' Comment Upvote = view1"
proof -
  have h: "votes_by (d_db view1) ''u2'' ''c1'' Comment = []"
    by (simp add: votes_by_def view1_def store1_def vote1_def)
  have n: "''vote_7'' \<notin> v_id ` set (db_votes (d_db view1))"
    by (simp add: view1_def store1_def vote1_def)
  show ?thesis
    using h n double_upvote_restores[OF h, of "''p1''" "''vote_8''" "''vote_7''"] by blast
qed

lemma distinct_map_filter_le1:
  "distinct (map f xs) \<longleftrightarrow> (\<forall>k. length (filter (\<lambda>x. f x = k) xs) \<le> 1)"
proof (induction xs)
  case Nil
  show ?case by simp
next
  case (Cons a xs)
  show ?case
  proof
    assume d: "distinct (map f (a # xs))"
    then have na: "f a \<notin> f ` set xs" and dx: "distinct (map f xs)" by simp_all
    have "filter (\<lambda>x. f x = f a) xs = []"
      unfolding filter_empty_conv using na by (metis imageI)
    then show "\<forall>k. length (filter (\<lambda>x. f x = k) (a # xs)) \<le> 1"
      using dx Cons.IH by simp
  next
    assume h: "\<forall>k. length (filter (\<lambda>x. f x = k) (a # xs)) \<le> 1"
    then have "length (filter (\<lambda>x. f x = f a) (a # xs)) \<le> 1" by blast
    then have "filter (\<lambda>x. f x = f a) xs = []" by simp
    then have na: "f a \<notin> f ` set xs"
      unfolding filter_empty_conv by (metis imageE)
    have "length (filter (\<lambda>x. f x = k) xs) \<le> 1" for k
    proof -
      have "length (filter (\<lambda>x. f x = k) xs) \<le> length (filter (\<lambda>x. f x = k) (a # xs))"
        by simp
      also have "\<dots> \<le> 1" using h by blast
      finally show ?thesis .
    qed
    then have "distinct (map f xs)" using Cons.IH by blast
    then show "distinct (map f (a # xs))" using na by simp
  qed
qed

lemma vote_inv_meaning:
  "vote_inv d \<longleftrightarrow>
     (\<forall>userId targetId targetType. length (votes_by d userId targetId targetType) \<le> 1)"
  unfolding vote_inv_def votes_by_key distinct_map_filter_le1 by auto

text \<open>
  Claim C7. The invariant \<open>vote_inv\<close> says that every user has at most one vote record
  on every target (a target is an identifier with its kind). The empty collection
  satisfies it, and from a state that satisfies it a submission through the post detail
  view or through the home feed, whichever of delete, update and create it performs,
  leads to a state that satisfies it.
\<close>

theorem vote_inv_preserved:
  "(vote_inv d \<longleftrightarrow>
      (\<forall>userId targetId targetType. length (votes_by d userId targetId targetType) \<le> 1))
   \<and> (db_votes d = [] \<longrightarrow> vote_inv d)
   \<and> (vote_inv (d_db s) \<longrightarrow>
        vote_inv (d_db (handleVote userId postId newId s targetId targetType voteType)))
   \<and> (vote_inv (pg_db f) \<longrightarrow>
        vote_inv (pg_db (PostFeed_handleVote userId newId f targetId voteType)))"
proof (intro conjI impI)
  show "vote_inv d \<longleftrightarrow>
      (\<forall>userId targetId targetType. length (votes_by d userId targetId targetType) \<le> 1)"
    by (rule vote_inv_meaning)
  show "vote_inv d" if "db_votes d = []"
    using that by (simp add: vote_inv_def)
  show "vote_inv (d_db (handleVote userId postId newId s targetId targetType voteType))"
    if "vote_inv (d_db s)"
    using that unfolding vote_inv_def handleVote_votes by (rule votes_after_inv)
  show "vote_inv (pg_db (PostFeed_handleVote userId newId f targetId voteType))"
    if "vote_inv (pg_db f)"
    using that unfolding vote_inv_def PostFeed_handleVote_votes by (rule votes_after_inv)
qed

theorem vote_inv_preserved_witness:
  "db_votes (store1\<lparr>db_votes := []\<rparr>) = [] \<and> vote_inv (store1\<lparr>db_votes := []\<rparr>)
   \<and> vote_inv (d_db view1)
   \<and> vote_inv (d_db (handleVote ''u1'' ''p1'' ''vote_9'' view1 ''p1'' Post Upvote))
   \<and> length (votes_by (d_db (handleVote ''u1'' ''p1'' ''vote_9'' view1 ''p1'' Post Upvote))
        ''u1'' ''p1'' Post) \<le> 1
   \<and> vote_inv (pg_db feed1)
   \<and> vote_inv (pg_db (PostFeed_handleVote ''u1'' ''vote_9'' feed1 ''p1'' Downvote))"
proof -
  have e: "db_votes (store1\<lparr>db_votes := []\<rparr>) = []" by simp
  have i: "vote_inv (d_db view1)" "vote_inv (pg_db feed1)"
    by (simp_all add: vote_inv_def view1_def store1_def feed1_def)
  note p = vote_inv_preserved[of _ view1 "''u1''" "''p1''" "''vote_9''" "''p1''" Post _ feed1]
  have a: "vote_inv (store1\<lparr>db_votes := []\<rparr>)"
    using p[of "store1\<lparr>db_votes := []\<rparr>" Upvote] e by blast
  have b: "vote_inv (d_db (handleVote ''u1'' ''p1'' ''vote_9'' view1 ''p1'' Post Upvote))"
    using p[of "store1" Upvote] i by blast
  have c: "length (votes_by (d_db (handleVote ''u1'' ''p1'' ''vote_9'' view1 ''p1'' Post Upvote))
        ''u1'' ''p1'' Post) \<le> 1"
    using p[of "d_db (handleVote ''u1'' ''p1'' ''vote_9'' view1 ''p1'' Post Upvote)" Upvote] b
    by blast
  have d: "vote_inv (pg_db (PostFeed_handleVote ''u1'' ''vote_9'' feed1 ''p1'' Downvote))"
    using p[of "store1" Downvote] i by blast
  show ?thesis using e i a b c d by blast
qed

lemma handleSubmitReply_effect:
  assumes "trim (d_replyText s) \<noteq> []"
  shows "db_comments (d_db (handleSubmitReply userId postId newId now s parentId depth)) =
           db_comments (d_db s) @
             [\<lparr>c_id = newId, c_content = trim (d_replyText s), c_authorId = userId,
               c_postId = postId, c_parentId = Some parentId, c_upvotes = 0, c_downvotes = 0,
               c_depth = min (depth + 1) 10, c_isDeleted = False, c_createdAt = now\<rparr>]"
    and "db_posts (d_db (handleSubmitReply userId postId newId now s parentId depth)) =
           (case d_post s of
              None \<Rightarrow> db_posts (d_db s)
            | Some post \<Rightarrow>
                map (\<lambda>p. if p_id p = postId then p\<lparr>p_commentCount := p_commentCount post + 1\<rparr>
                          else p) (db_posts (d_db s)))"
    and "d_post (handleSubmitReply userId postId newId now s parentId depth) = d_post s"
  using assms
  by (simp_all add: handleSubmitReply_def Let_def comments_create_def posts_update_def
      split: option.splits)

lemma trim_first: "trim ''first reply'' = ''first reply''"
  by (simp add: trim_def is_space_def)

lemma trim_second: "trim ''second reply'' = ''second reply''"
  by (simp add: trim_def is_space_def)

text \<open>
  Claim C8, evaluated on two replies in one visit of the post detail view. The post has
  one comment and the stored count 1. The first reply creates a second comment and
  stores the count 2. The cached post is not reloaded after a reply, so the second reply
  creates a third comment and stores the cached count plus one, which is 2 again: the
  stored count is not incremented by that submission.
\<close>

theorem second_reply_keeps_comment_count:
  "stored_commentCount (d_db view1) ''p1'' = Some 1
   \<and> length (db_comments (d_db view1)) = 1
   \<and> stored_commentCount
        (d_db (handleSubmitReply ''u1'' ''p1'' ''comment_2'' ''2024-01-02'' view1 ''c1'' 0))
        ''p1'' = Some 2
   \<and> length (db_comments
        (d_db (handleSubmitReply ''u1'' ''p1'' ''comment_2'' ''2024-01-02'' view1 ''c1'' 0))) = 2
   \<and> stored_commentCount
        (d_db (handleSubmitReply ''u1'' ''p1'' ''comment_3'' ''2024-01-03''
                (setReplyText ''second reply''
                  (handleSubmitReply ''u1'' ''p1'' ''comment_2'' ''2024-01-02'' view1 ''c1'' 0))
                ''c1'' 0))
        ''p1'' = Some 2
   \<and> length (db_comments
        (d_db (handleSubmitReply ''u1'' ''p1'' ''comment_3'' ''2024-01-03''
                (setReplyText ''second reply''
                  (handleSubmitReply ''u1'' ''p1'' ''comment_2'' ''2024-01-02'' view1 ''c1'' 0))
                ''c1'' 0))) = 3"
proof -
  let ?s1 = "handleSubmitReply ''u1'' ''p1'' ''comment_2'' ''2024-01-02'' view1 ''c1'' 0"
  let ?t = "setReplyText ''second reply'' ?s1"
  let ?s2 = "handleSubmitReply ''u1'' ''p1'' ''comment_3'' ''2024-01-03'' ?t ''c1'' 0"
  have t0: "trim (d_replyText view1) \<noteq> []"
    by (simp add: view1_def trim_first)
  have t1: "trim (d_replyText ?t) \<noteq> []"
    by (simp add: setReplyText_def trim_second)
  have "d_post ?s1 = d_post view1"
    by (rule handleSubmitReply_effect(3)[OF t0])
  then have p1: "d_post ?t = Some post1"
    by (simp add: setReplyText_def view1_def)
  have c1: "db_comments (d_db ?t) = db_comments (d_db ?s1)"
    and q1: "db_posts (d_db ?t) = db_posts (d_db ?s1)"
    by (simp_all add: setReplyText_def)
  have a: "stored_commentCount (d_db view1) ''p1'' = Some 1"
    by (simp add: stored_commentCount_def posts_list_id_def view1_def store1_def post1_def)
  have b: "length (db_comments (d_db view1)) = 1"
    by (simp add: view1_def store1_def)
  have posts1: "db_posts (d_db ?s1) = [post1\<lparr>p_commentCount := 2\<rparr>]"
    unfolding handleSubmitReply_effect(2)[OF t0]
    by (simp add: view1_def store1_def post1_def)
  have comments1: "length (db_comments (d_db ?s1)) = 2"
    unfolding handleSubmitReply_effect(1)[OF t0]
    by (simp add: view1_def store1_def)
  have posts2: "db_posts (d_db ?s2) = [post1\<lparr>p_commentCount := 2\<rparr>]"
    unfolding handleSubmitReply_effect(2)[OF t1] p1 q1 posts1
    by (simp add: post1_def)
  have comments2: "length (db_comments (d_db ?s2)) = 3"
    unfolding handleSubmitReply_effect(1)[OF t1] c1
    using comments1 by simp
  have c: "stored_commentCount (d_db ?s1) ''p1'' = Some 2"
    unfolding stored_commentCount_def posts_list_id_def posts1 by (simp add: post1_def)
  have d: "length (db_comments (d_db ?s1)) = 2"
    by (rule comments1)
  have e: "stored_commentCount (d_db ?s2) ''p1'' = Some 2"
    unfolding stored_commentCount_def posts_list_id_def posts2 by (simp add: post1_def)
  have f: "length (db_comments (d_db ?s2)) = 3"
    by (rule comments2)
  show ?thesis using a b c d e f by blast
qed

text \<open>
  Claim C10. The vote handlers of the search results page and of the trending page,
  called directly or through a post card, return the store and the page's posts as they
  were: no vote record is created, updated or deleted, and the stored counters and the
  displayed scores stay. The same action through the home feed or the post detail view
  always changes the votes collection.
\<close>

theorem stub_vote_handlers_change_nothing:
  "pg_db (SearchResults_handleVote s postId voteType) = pg_db s
   \<and> pg_posts (SearchResults_handleVote s postId voteType) = pg_posts s
   \<and> pg_db (TrendingPage_handleVote s postId voteType) = pg_db s
   \<and> pg_posts (TrendingPage_handleVote s postId voteType) = pg_posts s
   \<and> pg_db (fst (PostCard_handleVote SearchResults_handleVote post (s, userVote) voteType))
       = pg_db s
   \<and> map post_score
        (pg_posts (fst (PostCard_handleVote SearchResults_handleVote post (s, userVote) voteType)))
       = map post_score (pg_posts s)
   \<and> pg_db (fst (PostCard_handleVote TrendingPage_handleVote post (s, userVote) voteType))
       = pg_db s
   \<and> map post_score
        (pg_posts (fst (PostCard_handleVote TrendingPage_handleVote post (s, userVote) voteType)))
       = map post_score (pg_posts s)
   \<and> db_votes (pg_db (PostFeed_handleVote userId newId s postId voteType)) \<noteq> db_votes (pg_db s)
   \<and> db_votes (pg_db (fst (PostCard_handleVote (PostFeed_handleVote userId newId) post
                              (s, userVote) voteType))) \<noteq> db_votes (pg_db s)
   \<and> db_votes (d_db (handleVote userId postId newId t postId Post voteType)) \<noteq> db_votes (d_db t)"
  by (simp add: SearchResults_handleVote_def TrendingPage_handleVote_def PostCard_handleVote_def
      PostFeed_handleVote_votes handleVote_votes votes_after_changes)


end
